theory Spec2Isabelle
  imports Main
begin

section \<open>Minesweeper: the coordinate codec\<close>

text \<open>
  The embedding follows \<^verbatim>\<open>src/minesweeper/minesweeper.py\<close>. Python integers are
  unbounded and are modelled as \<^typ>\<open>int\<close>; a Python string is a \<^typ>\<open>string\<close>, one
  \<^typ>\<open>char\<close> per code point below 256 (the column labels are ASCII letters).
\<close>

subsection \<open>\<^verbatim>\<open>int_to_letters\<close>\<close>

text \<open>
  \<^verbatim>\<open>
  letter = str()
  while value > 0:
      r = (value-1) % 26
      letter = chr(r+65) + letter
      value = (value-1) // 26
  return letter
  \<close>
  The loop is the tail-recursive function \<open>int_to_letters_loop\<close> over the two variables it
  updates; Python's \<^verbatim>\<open>%\<close> and \<^verbatim>\<open>//\<close> round towards minus infinity, as \<open>mod\<close> and
  \<open>div\<close> on \<^typ>\<open>int\<close> do.
\<close>

function int_to_letters_loop :: "int \<Rightarrow> string \<Rightarrow> string" where
  "int_to_letters_loop val letter =
     (if val > 0
      then int_to_letters_loop ((val - 1) div 26) (char_of ((val - 1) mod 26 + 65) # letter)
      else letter)"
  by pat_completeness auto
termination
  by (relation "measure (\<lambda>(val, letter). nat val)") auto

declare int_to_letters_loop.simps [simp del]

definition int_to_letters :: "int \<Rightarrow> string" where
  "int_to_letters val = int_to_letters_loop val []"

subsection \<open>\<^verbatim>\<open>letters_to_int\<close>\<close>

text \<open>
  \<^verbatim>\<open>
  value = 0
  for i in range(len(letters)):
      char = letters[len(letters) - i - 1]
      if 65 <= ord(char) < 91:
          value += (ord(char) - 64) * (26 ** i)
      elif 97 <= ord(char) < 123:
          value += (ord(char) - 96) * (26 ** i)
  return value - 1
  \<close>
  \<open>letter_digit\<close> is the factor the two branches multiply by \<open>26 ** i\<close> (a character that is
  no letter adds nothing); \<open>letters_to_int_loop\<close> is the loop, given the characters in the
  order the loop visits them (last character first), the counter \<open>i\<close> and the accumulator.
\<close>

definition letter_digit :: "char \<Rightarrow> int" where
  "letter_digit ch =
     (if 65 \<le> (of_char ch :: int) \<and> (of_char ch :: int) < 91 then of_char ch - 64
      else if 97 \<le> (of_char ch :: int) \<and> (of_char ch :: int) < 123 then of_char ch - 96
      else 0)"

fun letters_to_int_loop :: "string \<Rightarrow> nat \<Rightarrow> int \<Rightarrow> int" where
  "letters_to_int_loop [] i val = val"
| "letters_to_int_loop (ch # rest) i val =
     letters_to_int_loop rest (Suc i) (val + letter_digit ch * 26 ^ i)"

definition letters_to_int :: "string \<Rightarrow> int" where
  "letters_to_int letters = letters_to_int_loop (rev letters) 0 0 - 1"

text \<open>Vocabulary of the specification: exchanging the case of the ASCII letters.\<close>

definition ascii_lower :: "char \<Rightarrow> char" where
  "ascii_lower ch =
     (if 65 \<le> (of_char ch :: int) \<and> (of_char ch :: int) < 91
      then char_of ((of_char ch :: int) + 32) else ch)"

definition ascii_upper :: "char \<Rightarrow> char" where
  "ascii_upper ch =
     (if 97 \<le> (of_char ch :: int) \<and> (of_char ch :: int) < 123
      then char_of ((of_char ch :: int) - 32) else ch)"

section \<open>Arrays\<close>

text \<open>
  The grids are two-dimensional \<^verbatim>\<open>numpy\<close> arrays of dtype \<^verbatim>\<open>int8\<close>. An array is the list
  of its rows. The entries the game stores are mine flags (0, 1), neighbour counts (at most 9
  before the mine mark is written), the marks -1 and 9 and the visibility states -1, 0, 1, so
  no operation below leaves the \<^verbatim>\<open>int8\<close> range and entries are plain integers. A position
  is a pair of Python integers (row, column); results that Python delivers by raising are
  values of \<open>py_error\<close>.
\<close>

type_synonym ndarray = "int list list"
type_synonym mask = "bool list list"
type_synonym cell = "nat \<times> nat"

datatype py_error = IndexError | ValueError | EOFError

definition same_shape :: "'a list list \<Rightarrow> 'b list list \<Rightarrow> bool" where
  "same_shape a b = (map length a = map length b)"

text \<open>
  An index \<open>i\<close> into an axis of length \<open>n\<close>: \<open>0 \<le> i < n\<close> counts from the start,
  \<open>-n \<le> i < 0\<close> from the end, anything else raises \<^verbatim>\<open>IndexError\<close>.
\<close>

definition norm_index :: "nat \<Rightarrow> int \<Rightarrow> nat option" where
  "norm_index n i =
     (if 0 \<le> i \<and> i < int n then Some (nat i)
      else if - int n \<le> i \<and> i < 0 then Some (nat (int n + i))
      else None)"

definition getitem :: "ndarray \<Rightarrow> int \<times> int \<Rightarrow> py_error + int" where
  "getitem a pos =
     (case norm_index (length a) (fst pos) of
        None \<Rightarrow> Inl IndexError
      | Some r \<Rightarrow>
          (case norm_index (length (a ! r)) (snd pos) of
             None \<Rightarrow> Inl IndexError
           | Some c \<Rightarrow> Inr (a ! r ! c)))"

definition setitem :: "ndarray \<Rightarrow> int \<times> int \<Rightarrow> int \<Rightarrow> py_error + ndarray" where
  "setitem a pos v =
     (case norm_index (length a) (fst pos) of
        None \<Rightarrow> Inl IndexError
      | Some r \<Rightarrow>
          (case norm_index (length (a ! r)) (snd pos) of
             None \<Rightarrow> Inl IndexError
           | Some c \<Rightarrow> Inr (a[r := (a ! r)[c := v]])))"

text \<open>Elementwise comparisons with a scalar, and the elementwise connectives on masks.\<close>

definition eq_mask :: "ndarray \<Rightarrow> int \<Rightarrow> mask" where
  "eq_mask a v = map (map (\<lambda>x. x = v)) a"

definition ne_mask :: "ndarray \<Rightarrow> int \<Rightarrow> mask" where
  "ne_mask a v = map (map (\<lambda>x. x \<noteq> v)) a"

definition lt_mask :: "ndarray \<Rightarrow> int \<Rightarrow> mask" where
  "lt_mask a v = map (map (\<lambda>x. x < v)) a"

definition ge_mask :: "ndarray \<Rightarrow> int \<Rightarrow> mask" where
  "ge_mask a v = map (map (\<lambda>x. x \<ge> v)) a"

definition logical_and :: "mask \<Rightarrow> mask \<Rightarrow> mask" where
  "logical_and m n = map2 (map2 (\<and>)) m n"

definition logical_xor :: "mask \<Rightarrow> mask \<Rightarrow> mask" where
  "logical_xor m n = map2 (map2 (\<noteq>)) m n"

definition np_any :: "mask \<Rightarrow> bool" where
  "np_any m = (\<exists>row \<in> set m. \<exists>b \<in> set row. b)"

text \<open>\<^verbatim>\<open>a[m] = v\<close> for a mask \<open>m\<close> of the shape of \<open>a\<close>.\<close>

definition putmask :: "ndarray \<Rightarrow> mask \<Rightarrow> int \<Rightarrow> ndarray" where
  "putmask a m v = map2 (map2 (\<lambda>x b. if b then v else x)) a m"

definition zeros_like :: "ndarray \<Rightarrow> ndarray" where
  "zeros_like a = map (map (\<lambda>x. 0)) a"

subsection \<open>\<^verbatim>\<open>scipy.ndimage.convolve\<close> with the 3 by 3 kernel of ones\<close>

text \<open>
  \<^verbatim>\<open>RANGE = np.ones((3, 3), dtype=np.int8)\<close> and \<^verbatim>\<open>convolve(a, RANGE, mode='constant')\<close>:
  every entry of the result is the sum of the nine entries of the 3 by 3 window around it,
  an entry outside the array counting 0 (the constant of the mode).
\<close>

definition cell0 :: "ndarray \<Rightarrow> int \<Rightarrow> int \<Rightarrow> int" where
  "cell0 a i j =
     (if 0 \<le> i \<and> i < int (length a) \<and> 0 \<le> j \<and> j < int (length (a ! nat i))
      then a ! nat i ! nat j else 0)"

definition window :: "(int \<times> int) list" where
  "window = [(-1, -1), (-1, 0), (-1, 1), (0, -1), (0, 0), (0, 1), (1, -1), (1, 0), (1, 1)]"

definition convolve :: "ndarray \<Rightarrow> ndarray" where
  "convolve a =
     map (\<lambda>r. map (\<lambda>c. sum_list (map (\<lambda>d. cell0 a (int r + fst d) (int c + snd d)) window))
                  [0..<length (a ! r)])
         [0..<length a]"

subsection \<open>\<^verbatim>\<open>scipy.ndimage.label\<close> with the 3 by 3 structure of ones\<close>

text \<open>
  \<^verbatim>\<open>label(a, structure=RANGE)\<close> takes the non-zero entries of \<open>a\<close> as features, joins two
  features when they touch (the structure of ones makes the eight cells around a cell its
  neighbours) and returns the array of labels together with the number of features found:
  background is 0 and the features are numbered 1, 2, ... in the order in which a row-major
  scan meets them.

  \<open>cells\<close> lists the positions in row-major order. \<open>grow\<close> adds to a set of cells the
  non-zero cells touching it, and \<open>feature_of\<close> repeats that once per non-zero cell of the
  array, which exhausts the feature. The first cell of a feature (its \<open>seed\<close>) identifies it.
\<close>

definition cells :: "'a list list \<Rightarrow> cell list" where
  "cells a = concat (map (\<lambda>r. map (\<lambda>c. (r, c)) [0..<length (a ! r)]) [0..<length a])"

definition at :: "ndarray \<Rightarrow> cell \<Rightarrow> int" where
  "at a p = a ! fst p ! snd p"

definition adj8 :: "cell \<Rightarrow> cell \<Rightarrow> bool" where
  "adj8 p q = (\<bar>int (fst p) - int (fst q)\<bar> \<le> 1 \<and> \<bar>int (snd p) - int (snd q)\<bar> \<le> 1)"

definition nonzero_cells :: "ndarray \<Rightarrow> cell list" where
  "nonzero_cells a = filter (\<lambda>p. at a p \<noteq> 0) (cells a)"

definition grow :: "ndarray \<Rightarrow> cell list \<Rightarrow> cell list" where
  "grow a S = filter (\<lambda>q. \<exists>p \<in> set S. adj8 p q) (nonzero_cells a)"

fun grow_n :: "nat \<Rightarrow> ndarray \<Rightarrow> cell list \<Rightarrow> cell list" where
  "grow_n 0 a S = S"
| "grow_n (Suc n) a S = grow_n n a (grow a S)"

definition feature_of :: "ndarray \<Rightarrow> cell \<Rightarrow> cell list" where
  "feature_of a p = grow_n (length (nonzero_cells a)) a [p]"

definition seed :: "ndarray \<Rightarrow> cell \<Rightarrow> cell" where
  "seed a p = hd (feature_of a p)"

definition seeds :: "ndarray \<Rightarrow> cell list" where
  "seeds a = filter (\<lambda>p. seed a p = p) (nonzero_cells a)"

fun index_of :: "'a list \<Rightarrow> 'a \<Rightarrow> nat" where
  "index_of [] x = 0"
| "index_of (y # ys) x = (if y = x then 0 else Suc (index_of ys x))"

definition label :: "ndarray \<Rightarrow> ndarray \<times> nat" where
  "label a =
     (map (\<lambda>r. map (\<lambda>c. if at a (r, c) \<noteq> 0 then 1 + int (index_of (seeds a) (seed a (r, c))) else 0)
                   [0..<length (a ! r)])
          [0..<length a],
      length (seeds a))"

section \<open>The game\<close>

subsection \<open>\<^verbatim>\<open>get_value\<close>\<close>

text \<open>
  \<^verbatim>\<open>
  value = convolve(map, RANGE, mode='constant')
  value[map == 1] = -1
  return value
  \<close>
\<close>

definition get_value :: "ndarray \<Rightarrow> ndarray" where
  "get_value m = putmask (convolve m) (eq_mask m 1) (-1)"

subsection \<open>\<^verbatim>\<open>update_visible\<close>\<close>

text \<open>
  The visibility states: 0 is a covered cell, 1 a revealed one, -1 a flagged one. The
  function changes \<^verbatim>\<open>visible\<close> in place and returns it; the model returns the new array.
  Each branch reads \<^verbatim>\<open>visible[pos[0], pos[1]]\<close> first. In the flood branch
  \<^verbatim>\<open>
  val_temp = value.copy()
  val_temp[val_temp == 0] = 9
  val_temp[np.logical_and(val_temp != 0, val_temp < 9)] = 0
  labeled, _ = label(val_temp, structure=RANGE)
  vis_temp = np.zeros_like(visible, dtype=np.int8)
  vis_temp[labeled == labeled[pos[0], pos[1]]] = 1
  vis_temp = convolve(vis_temp, RANGE, mode='constant')
  visible[vis_temp >= 1] = 1
  \<close>
  the mask \<^verbatim>\<open>labeled == ...\<close> has the shape of \<^verbatim>\<open>value\<close> and indexes an array of the
  shape of \<^verbatim>\<open>visible\<close>: \<^verbatim>\<open>numpy\<close> raises \<^verbatim>\<open>IndexError\<close> when the two differ.
\<close>

definition update_visible ::
  "ndarray \<Rightarrow> ndarray \<Rightarrow> int \<times> int \<Rightarrow> bool \<Rightarrow> py_error + ndarray" where
  "update_visible val visible pos flag =
     (case getitem visible pos of
        Inl e \<Rightarrow> Inl e
      | Inr vis_pos \<Rightarrow>
          if flag then
            (if vis_pos = 0 then setitem visible pos (-1)
             else if vis_pos = -1 then setitem visible pos 0
             else Inr visible)
          else if vis_pos = -1 then Inr visible
          else
            (case getitem val pos of
               Inl e \<Rightarrow> Inl e
             | Inr val_pos \<Rightarrow>
                 if val_pos = 0 then
                   (let val_temp = putmask val (eq_mask val 0) 9;
                        val_temp = putmask val_temp
                                     (logical_and (ne_mask val_temp 0) (lt_mask val_temp 9)) 0;
                        labeled = fst (label val_temp)
                    in case getitem labeled pos of
                         Inl e \<Rightarrow> Inl e
                       | Inr lab \<Rightarrow>
                           if same_shape visible labeled then
                             (let vis_temp = zeros_like visible;
                                  vis_temp = putmask vis_temp (eq_mask labeled lab) 1;
                                  vis_temp = convolve vis_temp
                              in Inr (putmask visible (ge_mask vis_temp 1) 1))
                           else Inl IndexError)
                 else setitem visible pos 1))"

subsection \<open>\<^verbatim>\<open>check_end\<close>\<close>

text \<open>
  \<^verbatim>\<open>
  if value[pos[0], pos[1]] == -1 and visible[pos[0], pos[1]] == 1:
      return 0
  elif not np.any(np.logical_xor(value != -1, visible == 1)):
      return 1
  else:
      return -1
  \<close>
  Python's \<^verbatim>\<open>and\<close> reads \<^verbatim>\<open>visible\<close> only when the first comparison holds. The
  elementwise \<^verbatim>\<open>logical_xor\<close> is modelled for arrays of one shape, which the two grids of a
  round always have; for other shapes the model answers \<^verbatim>\<open>ValueError\<close>, what \<^verbatim>\<open>numpy\<close>
  raises unless it can broadcast them.
\<close>

definition LOST :: int where "LOST = 0"
definition WON :: int where "WON = 1"
definition ONGOING :: int where "ONGOING = -1"

definition check_end :: "ndarray \<Rightarrow> ndarray \<Rightarrow> int \<times> int \<Rightarrow> py_error + int" where
  "check_end val visible pos =
     (case getitem val pos of
        Inl e \<Rightarrow> Inl e
      | Inr val_pos \<Rightarrow>
          (case (if val_pos = -1 then getitem visible pos else Inr 0) of
             Inl e \<Rightarrow> Inl e
           | Inr vis_pos \<Rightarrow>
               if val_pos = -1 \<and> vis_pos = 1 then Inr 0
               else if \<not> same_shape val visible then Inl ValueError
               else if \<not> np_any (logical_xor (ne_mask val (-1)) (eq_mask visible 1)) then Inr 1
               else Inr (-1)))"

subsection \<open>Vocabulary for the properties\<close>

text \<open>
  A cell is inside an array when its row and column exist. The features of
  \<^verbatim>\<open>scipy.ndimage.label\<close> are the classes of the non-zero cells under the reflexive
  transitive closure of \<open>link\<close>, the relation of touching non-zero cells.
\<close>

definition in_bounds :: "'a list list \<Rightarrow> cell \<Rightarrow> bool" where
  "in_bounds a p = (fst p < length a \<and> snd p < length (a ! fst p))"

definition feature_cell :: "ndarray \<Rightarrow> cell \<Rightarrow> bool" where
  "feature_cell a p = (in_bounds a p \<and> at a p \<noteq> 0)"

definition link :: "ndarray \<Rightarrow> (cell \<times> cell) set" where
  "link a = {(p, q). feature_cell a p \<and> feature_cell a q \<and> adj8 p q}"

text \<open>
  A mine grid holds 1 where a mine lies and 0 elsewhere; the mine neighbours of a cell are
  the mines among the at most eight cells of the grid around it.
\<close>

definition mine_grid :: "ndarray \<Rightarrow> bool" where
  "mine_grid m = (\<forall>row \<in> set m. \<forall>x \<in> set row. x = 0 \<or> x = 1)"

definition mine_neighbours :: "ndarray \<Rightarrow> cell \<Rightarrow> cell set" where
  "mine_neighbours m p = {q. in_bounds m q \<and> q \<noteq> p \<and> adj8 p q \<and> at m q = 1}"

section \<open>Properties of the codec\<close>

lemma letters_to_int_loop_shift:
  "letters_to_int_loop xs i val = val + 26 ^ i * letters_to_int_loop xs 0 0"
proof (induction xs arbitrary: i val)
  case Nil
  show ?case by simp
next
  case (Cons ch rest)
  have "letters_to_int_loop (ch # rest) i val
      = (val + letter_digit ch * 26 ^ i) + 26 ^ Suc i * letters_to_int_loop rest 0 0"
    using Cons.IH [of "Suc i" "val + letter_digit ch * 26 ^ i"] by simp
  moreover have "letters_to_int_loop (ch # rest) 0 0
      = letter_digit ch + 26 * letters_to_int_loop rest 0 0"
    using Cons.IH [of "Suc 0" "letter_digit ch"] by simp
  ultimately show ?case by (simp add: algebra_simps)
qed

lemma letters_to_int_loop_snoc:
  "letters_to_int_loop (xs @ [ch]) 0 0
     = letters_to_int_loop xs 0 0 + 26 ^ length xs * letter_digit ch"
proof (induction xs)
  case Nil
  show ?case by simp
next
  case (Cons x xs)
  have "letters_to_int_loop ((x # xs) @ [ch]) 0 0
      = letter_digit x + 26 * letters_to_int_loop (xs @ [ch]) 0 0"
    using letters_to_int_loop_shift [of "xs @ [ch]" "Suc 0" "letter_digit x"] by simp
  moreover have "letters_to_int_loop (x # xs) 0 0
      = letter_digit x + 26 * letters_to_int_loop xs 0 0"
    using letters_to_int_loop_shift [of xs "Suc 0" "letter_digit x"] by simp
  ultimately show ?case using Cons.IH by (simp add: algebra_simps)
qed

lemma letter_digit_upper:
  assumes "0 \<le> r" "r < 26"
  shows "letter_digit (char_of (r + 65)) = r + 1"
proof -
  have "(r + 65) mod 256 = r + 65" using assms by simp
  then have "(of_char (char_of (r + 65)) :: int) = r + 65" by simp
  then show ?thesis using assms by (simp add: letter_digit_def)
qed

lemma decode_loop:
  "0 \<le> val \<Longrightarrow>
   letters_to_int_loop (rev (int_to_letters_loop val letter)) 0 0
     = letters_to_int_loop (rev letter) 0 0 + 26 ^ length letter * val"
proof (induction val letter rule: int_to_letters_loop.induct)
  case (1 val letter)
  show ?case
  proof (cases "val > 0")
    case False
    with "1.prems" have "val = 0" by simp
    then show ?thesis by (simp add: int_to_letters_loop.simps [of 0 letter])
  next
    case True
    define r where "r = (val - 1) mod 26"
    define q where "q = (val - 1) div 26"
    have r: "0 \<le> r" "r < 26" by (simp_all add: r_def)
    have q: "0 \<le> q" using True by (simp add: q_def)
    have val: "val = 26 * q + r + 1" by (simp add: r_def q_def)
    have step: "int_to_letters_loop val letter = int_to_letters_loop q (char_of (r + 65) # letter)"
      using True by (simp add: int_to_letters_loop.simps [of val letter] r_def q_def)
    have ih: "letters_to_int_loop (rev (int_to_letters_loop q (char_of (r + 65) # letter))) 0 0
        = letters_to_int_loop (rev (char_of (r + 65) # letter)) 0 0
          + 26 ^ length (char_of (r + 65) # letter) * q"
      using "1.IH" [OF True] q by (simp add: r_def q_def)
    have hd: "letters_to_int_loop (rev (char_of (r + 65) # letter)) 0 0
        = letters_to_int_loop (rev letter) 0 0 + 26 ^ length letter * (r + 1)"
      using letters_to_int_loop_snoc [of "rev letter" "char_of (r + 65)"] letter_digit_upper [OF r]
      by simp
    have "letters_to_int_loop (rev (int_to_letters_loop val letter)) 0 0
        = letters_to_int_loop (rev letter) 0 0 + 26 ^ length letter * (r + 1)
          + 26 ^ length letter * 26 * q"
      unfolding step ih hd by simp
    also have "\<dots> = letters_to_int_loop (rev letter) 0 0 + 26 ^ length letter * val"
      by (simp add: val algebra_simps)
    finally show ?thesis .
  qed
qed

lemma letters_round_trip: "1 \<le> n \<Longrightarrow> letters_to_int (int_to_letters n) = n - 1"
  using decode_loop [of n "[]"] by (simp add: letters_to_int_def int_to_letters_def)

lemma letter_digit_lower [simp]: "letter_digit (ascii_lower ch) = letter_digit ch"
proof (cases "65 \<le> (of_char ch :: int) \<and> (of_char ch :: int) < 91")
  case False
  then show ?thesis by (auto simp: ascii_lower_def)
next
  case True
  then have "((of_char ch :: int) + 32) mod 256 = of_char ch + 32" by simp
  then have "(of_char (char_of ((of_char ch :: int) + 32)) :: int) = of_char ch + 32" by simp
  with True show ?thesis by (simp add: ascii_lower_def letter_digit_def)
qed

lemma letter_digit_upper_case [simp]: "letter_digit (ascii_upper ch) = letter_digit ch"
proof (cases "97 \<le> (of_char ch :: int) \<and> (of_char ch :: int) < 123")
  case False
  then show ?thesis by (auto simp: ascii_upper_def)
next
  case True
  then have "((of_char ch :: int) - 32) mod 256 = of_char ch - 32" by simp
  then have "(of_char (char_of ((of_char ch :: int) - 32)) :: int) = of_char ch - 32" by simp
  with True show ?thesis by (simp add: ascii_upper_def letter_digit_def)
qed

lemma letters_to_int_loop_map:
  "(\<And>ch. letter_digit (f ch) = letter_digit ch) \<Longrightarrow>
   letters_to_int_loop (map f xs) i val = letters_to_int_loop xs i val"
  by (induction xs arbitrary: i val) simp_all

lemma letters_to_int_lower: "letters_to_int (map ascii_lower s) = letters_to_int s"
  by (simp add: letters_to_int_def rev_map letters_to_int_loop_map)

lemma letters_to_int_upper: "letters_to_int (map ascii_upper s) = letters_to_int s"
  by (simp add: letters_to_int_def rev_map letters_to_int_loop_map)

text \<open>
  Claim C9. For every integer \<open>n \<ge> 1\<close>, decoding the label of \<open>n\<close> gives \<open>n - 1\<close>: the
  decoder inverts the bijective base-26 encoder, shifted to the 0-based column index. The
  labels \<open>A\<close>, \<open>Z\<close> and \<open>AA\<close> decode to 0, 25 and 26, and exchanging upper and lower case
  letters in a label does not change what it decodes to.
\<close>

theorem codec_round_trip:
  "(\<forall>n\<ge>1. letters_to_int (int_to_letters n) = n - 1)
   \<and> letters_to_int ''A'' = 0 \<and> letters_to_int ''Z'' = 25 \<and> letters_to_int ''AA'' = 26
   \<and> (\<forall>s. letters_to_int (map ascii_lower s) = letters_to_int s
          \<and> letters_to_int (map ascii_upper s) = letters_to_int s)"
proof -
  have "letters_to_int ''A'' = 0" "letters_to_int ''Z'' = 25" "letters_to_int ''AA'' = 26"
    by (simp_all add: letters_to_int_def letter_digit_def)
  then show ?thesis
    using letters_round_trip letters_to_int_lower letters_to_int_upper by blast
qed

theorem codec_round_trip_witness:
  "(1::int) \<le> 27 \<and> int_to_letters 27 = ''AA'' \<and> letters_to_int (int_to_letters 27) = 26
   \<and> letters_to_int ''aa'' = 26"
proof -
  have enc: "int_to_letters 27 = ''AA''"
    by code_simp
  have low: "map ascii_lower ''AA'' = ''aa''"
    by code_simp
  have rt: "letters_to_int (int_to_letters 27) = 27 - 1"
    using codec_round_trip by simp
  have "letters_to_int (map ascii_lower ''AA'') = letters_to_int ''AA''"
    using codec_round_trip by blast
  with rt enc low show ?thesis by simp
qed

text \<open>
  Claim C10. For every integer \<open>n \<le> 0\<close> the encoder returns the empty string: the loop
  condition \<open>value > 0\<close> fails at once, no error is raised and nothing is iterated.
\<close>

theorem int_to_letters_nonpositive: "n \<le> 0 \<Longrightarrow> int_to_letters n = ''''"
  by (simp add: int_to_letters_def int_to_letters_loop.simps)

theorem int_to_letters_nonpositive_witness:
  "(-5::int) \<le> 0 \<and> int_to_letters (-5) = '''' \<and> int_to_letters 0 = ''''"
  using int_to_letters_nonpositive [of "-5"] int_to_letters_nonpositive [of 0] by simp

section \<open>Properties of the arrays\<close>

lemma same_shape_iff:
  "same_shape a b \<longleftrightarrow> length a = length b \<and> (\<forall>r<length a. length (a ! r) = length (b ! r))"
  by (auto simp: same_shape_def list_eq_iff_nth_eq)

lemma same_shape_refl [simp]: "same_shape a a"
  by (simp add: same_shape_def)

lemma same_shape_sym: "same_shape a b \<Longrightarrow> same_shape b a"
  by (simp add: same_shape_def)

lemma same_shape_trans: "same_shape a b \<Longrightarrow> same_shape b c \<Longrightarrow> same_shape a c"
  by (simp add: same_shape_def)

lemma same_shape_in_bounds: "same_shape a b \<Longrightarrow> in_bounds a p = in_bounds b p"
  by (auto simp: same_shape_iff in_bounds_def)

lemma shape_eq_mask [simp]: "same_shape (eq_mask a v) a"
  by (simp add: same_shape_def eq_mask_def comp_def)

lemma shape_ne_mask [simp]: "same_shape (ne_mask a v) a"
  by (simp add: same_shape_def ne_mask_def comp_def)

lemma shape_lt_mask [simp]: "same_shape (lt_mask a v) a"
  by (simp add: same_shape_def lt_mask_def comp_def)

lemma shape_ge_mask [simp]: "same_shape (ge_mask a v) a"
  by (simp add: same_shape_def ge_mask_def comp_def)

lemma shape_zeros_like [simp]: "same_shape (zeros_like a) a"
  by (simp add: same_shape_def zeros_like_def comp_def)

lemma shape_convolve [simp]: "same_shape (convolve a) a"
  by (simp add: same_shape_iff convolve_def)

lemma shape_label [simp]: "same_shape (fst (label a)) a"
  by (simp add: same_shape_iff label_def)

lemma shape_putmask: "same_shape m a \<Longrightarrow> same_shape (putmask a m v) a"
  by (simp add: same_shape_iff putmask_def)

lemma shape_logical_and: "same_shape m a \<Longrightarrow> same_shape n a \<Longrightarrow> same_shape (logical_and m n) a"
  by (simp add: same_shape_iff logical_and_def)

lemma shape_logical_xor: "same_shape m a \<Longrightarrow> same_shape n a \<Longrightarrow> same_shape (logical_xor m n) a"
  by (simp add: same_shape_iff logical_xor_def)

lemma at_eq_mask: "in_bounds a p \<Longrightarrow> eq_mask a v ! fst p ! snd p = (at a p = v)"
  by (simp add: eq_mask_def in_bounds_def at_def)

lemma at_ne_mask: "in_bounds a p \<Longrightarrow> ne_mask a v ! fst p ! snd p = (at a p \<noteq> v)"
  by (simp add: ne_mask_def in_bounds_def at_def)

lemma at_lt_mask: "in_bounds a p \<Longrightarrow> lt_mask a v ! fst p ! snd p = (at a p < v)"
  by (simp add: lt_mask_def in_bounds_def at_def)

lemma at_ge_mask: "in_bounds a p \<Longrightarrow> ge_mask a v ! fst p ! snd p = (at a p \<ge> v)"
  by (simp add: ge_mask_def in_bounds_def at_def)

lemma at_zeros_like: "in_bounds a p \<Longrightarrow> at (zeros_like a) p = 0"
  by (simp add: zeros_like_def in_bounds_def at_def)

lemma at_putmask:
  "same_shape m a \<Longrightarrow> in_bounds a p \<Longrightarrow>
   at (putmask a m v) p = (if m ! fst p ! snd p then v else at a p)"
  by (simp add: putmask_def in_bounds_def at_def same_shape_iff)

lemma at_logical_and:
  "same_shape m a \<Longrightarrow> same_shape n a \<Longrightarrow> in_bounds a p \<Longrightarrow>
   logical_and m n ! fst p ! snd p = (m ! fst p ! snd p \<and> n ! fst p ! snd p)"
  by (simp add: logical_and_def in_bounds_def same_shape_iff)

lemma at_logical_xor:
  "same_shape m a \<Longrightarrow> same_shape n a \<Longrightarrow> in_bounds a p \<Longrightarrow>
   logical_xor m n ! fst p ! snd p = (m ! fst p ! snd p \<noteq> n ! fst p ! snd p)"
  by (simp add: logical_xor_def in_bounds_def same_shape_iff)

lemma np_any_iff: "np_any m \<longleftrightarrow> (\<exists>p. in_bounds m p \<and> m ! fst p ! snd p)"
proof
  assume "np_any m"
  then obtain row where row: "row \<in> set m" "True \<in> set row"
    unfolding np_any_def by auto
  from row(1) obtain r where r: "r < length m" "m ! r = row"
    unfolding in_set_conv_nth by blast
  from row(2) obtain c where c: "c < length row" "row ! c"
    unfolding in_set_conv_nth by blast
  from r c have "r < length m" "c < length (m ! r)" "m ! r ! c" by simp_all
  then have "in_bounds m (r, c) \<and> m ! fst (r, c) ! snd (r, c)"
    by (simp add: in_bounds_def)
  then show "\<exists>p. in_bounds m p \<and> m ! fst p ! snd p" by blast
next
  assume "\<exists>p. in_bounds m p \<and> m ! fst p ! snd p"
  then obtain p where p: "fst p < length m" "snd p < length (m ! fst p)" "m ! fst p ! snd p"
    by (auto simp: in_bounds_def)
  have "\<exists>b \<in> set (m ! fst p). b"
    by (rule bexI [where x = "m ! fst p ! snd p"]) (rule p(3), rule nth_mem [OF p(2)])
  then show "np_any m"
    unfolding np_any_def by (rule bexI [where x = "m ! fst p"]) (rule nth_mem [OF p(1)])
qed

lemma at_convolve:
  "in_bounds a p \<Longrightarrow>
   at (convolve a) p
     = sum_list (map (\<lambda>d. cell0 a (int (fst p) + fst d) (int (snd p) + snd d)) window)"
  by (simp add: convolve_def in_bounds_def at_def)

lemma at_label:
  "in_bounds a p \<Longrightarrow>
   at (fst (label a)) p
     = (if at a p \<noteq> 0 then 1 + int (index_of (seeds a) (seed a p)) else 0)"
  by (simp add: label_def in_bounds_def at_def)

lemma set_cells: "set (cells a) = {p. in_bounds a p}"
  by (auto simp: cells_def in_bounds_def)

lemma adj8_refl [simp]: "adj8 p p"
  by (simp add: adj8_def)

lemma adj8_sym: "adj8 p q \<Longrightarrow> adj8 q p"
  by (simp add: adj8_def abs_minus_commute)

lemma in_window: "d \<in> set window \<longleftrightarrow> \<bar>fst d\<bar> \<le> 1 \<and> \<bar>snd d\<bar> \<le> 1"
proof -
  have "\<bar>x\<bar> \<le> 1 \<longleftrightarrow> x = -1 \<or> x = 0 \<or> x = 1" for x :: int by arith
  then show ?thesis by (cases d) (auto simp: window_def)
qed

lemma cell0_in_bounds:
  "in_bounds a z \<Longrightarrow> cell0 a (int (fst z)) (int (snd z)) = at a z"
  by (simp add: cell0_def in_bounds_def at_def)

lemma cell0_nonzero:
  "cell0 a i j \<noteq> 0 \<Longrightarrow> 0 \<le> i \<and> 0 \<le> j \<and> in_bounds a (nat i, nat j) \<and> cell0 a i j = at a (nat i, nat j)"
  by (auto simp: cell0_def in_bounds_def at_def split: if_splits)

lemma window_touch:
  "(\<exists>d \<in> set window. cell0 a (int (fst p) + fst d) (int (snd p) + snd d) = 1)
     \<longleftrightarrow> (\<exists>z. in_bounds a z \<and> adj8 p z \<and> at a z = 1)"
proof
  assume "\<exists>d \<in> set window. cell0 a (int (fst p) + fst d) (int (snd p) + snd d) = 1"
  then obtain d where d: "d \<in> set window"
    and one: "cell0 a (int (fst p) + fst d) (int (snd p) + snd d) = 1" by blast
  define z where "z = (nat (int (fst p) + fst d), nat (int (snd p) + snd d))"
  from one have nz: "cell0 a (int (fst p) + fst d) (int (snd p) + snd d) \<noteq> 0" by simp
  from cell0_nonzero [OF nz] one
  have "0 \<le> int (fst p) + fst d" "0 \<le> int (snd p) + snd d" "in_bounds a z" "at a z = 1"
    by (simp_all add: z_def)
  moreover from this d have "adj8 p z"
    by (simp add: adj8_def z_def in_window)
  ultimately show "\<exists>z. in_bounds a z \<and> adj8 p z \<and> at a z = 1" by blast
next
  assume "\<exists>z. in_bounds a z \<and> adj8 p z \<and> at a z = 1"
  then obtain z where z: "in_bounds a z" "adj8 p z" "at a z = 1" by blast
  define d where "d = (int (fst z) - int (fst p), int (snd z) - int (snd p))"
  have "d \<in> set window" using z(2) by (simp add: in_window d_def adj8_def abs_minus_commute)
  moreover have "cell0 a (int (fst p) + fst d) (int (snd p) + snd d) = 1"
    using cell0_in_bounds [OF z(1)] z(3) by (simp add: d_def)
  ultimately show "\<exists>d \<in> set window. cell0 a (int (fst p) + fst d) (int (snd p) + snd d) = 1"
    by blast
qed

lemma set_nonzero_cells: "set (nonzero_cells a) = {p. feature_cell a p}"
  by (auto simp: nonzero_cells_def set_cells feature_cell_def)

lemma set_grow: "set (grow a S) = {q. feature_cell a q \<and> (\<exists>p \<in> set S. adj8 p q)}"
  by (auto simp: grow_def set_nonzero_cells)

lemma grow_cong: "set S = set T \<Longrightarrow> grow a S = grow a T"
  by (simp add: grow_def)

lemma grow_n_commute: "grow_n n a (grow a S) = grow a (grow_n n a S)"
  by (induction n arbitrary: S) simp_all

lemma grow_n_Suc: "grow_n (Suc n) a S = grow a (grow_n n a S)"
  by (simp add: grow_n_commute)

lemma grow_superset:
  assumes "set S \<subseteq> {p. feature_cell a p}"
  shows "set S \<subseteq> set (grow a S)"
proof
  fix q assume "q \<in> set S"
  with assms have "feature_cell a q \<and> (\<exists>p \<in> set S. adj8 p q)"
    using adj8_refl by blast
  then show "q \<in> set (grow a S)" by (simp add: set_grow)
qed

lemma grow_features: "set (grow a S) \<subseteq> {p. feature_cell a p}"
  by (auto simp: set_grow)

lemma grow_n_features:
  "set S \<subseteq> {p. feature_cell a p} \<Longrightarrow> set (grow_n n a S) \<subseteq> {p. feature_cell a p}"
proof (induction n arbitrary: S)
  case 0
  then show ?case by simp
next
  case (Suc n)
  show ?case using Suc.IH [OF grow_features [of a S]] by simp
qed

lemma grow_n_superset:
  "set S \<subseteq> {p. feature_cell a p} \<Longrightarrow> set S \<subseteq> set (grow_n n a S)"
proof (induction n arbitrary: S)
  case 0
  then show ?case by simp
next
  case (Suc n)
  have "set S \<subseteq> set (grow a S)" using Suc.prems by (rule grow_superset)
  also have "\<dots> \<subseteq> set (grow_n n a (grow a S))"
    using grow_features by (rule Suc.IH)
  finally show ?case by simp
qed

lemma grow_reach:
  assumes "set S \<subseteq> {p. feature_cell a p}" and "set S \<subseteq> (link a)\<^sup>* `` {p}"
  shows "set (grow a S) \<subseteq> (link a)\<^sup>* `` {p}"
proof
  fix q assume "q \<in> set (grow a S)"
  then obtain s where s: "s \<in> set S" "adj8 s q" "feature_cell a q"
    by (auto simp: set_grow)
  with assms have "(p, s) \<in> (link a)\<^sup>*" "(s, q) \<in> link a"
    by (auto simp: link_def)
  then show "q \<in> (link a)\<^sup>* `` {p}" by auto
qed

lemma grow_n_reach:
  "set S \<subseteq> {p. feature_cell a p} \<Longrightarrow> set S \<subseteq> (link a)\<^sup>* `` {p} \<Longrightarrow>
   set (grow_n n a S) \<subseteq> (link a)\<^sup>* `` {p}"
proof (induction n arbitrary: S)
  case 0
  then show ?case by simp
next
  case (Suc n)
  show ?case
    using Suc.IH [OF grow_features grow_reach [OF Suc.prems]] by simp
qed

lemma grow_n_progress:
  assumes "set S \<subseteq> {p. feature_cell a p}"
  shows "card (set S) + n \<le> card (set (grow_n n a S))
         \<or> set (grow a (grow_n n a S)) = set (grow_n n a S)"
proof (induction n)
  case 0
  show ?case by simp
next
  case (Suc n)
  let ?T = "grow_n n a S"
  have sub: "set ?T \<subseteq> set (grow a ?T)"
    using grow_n_features [OF assms] by (rule grow_superset)
  have eq: "grow_n (Suc n) a S = grow a ?T" by (rule grow_n_Suc)
  show ?case
  proof (cases "set (grow a ?T) = set ?T")
    case True
    then have "grow a (grow a ?T) = grow a ?T" by (rule grow_cong)
    then show ?thesis unfolding eq by simp
  next
    case False
    with sub have "set ?T \<subset> set (grow a ?T)" by blast
    then have "card (set ?T) < card (set (grow a ?T))"
      by (simp add: psubset_card_mono)
    moreover from False Suc have "card (set S) + n \<le> card (set ?T)" by blast
    ultimately show ?thesis unfolding eq by simp
  qed
qed

lemma feature_of_fixed:
  assumes "feature_cell a p"
  shows "set (grow a (feature_of a p)) = set (feature_of a p)"
proof -
  let ?N = "length (nonzero_cells a)"
  have S: "set [p] \<subseteq> {p. feature_cell a p}" using assms by simp
  have "set (grow_n ?N a [p]) \<subseteq> set (nonzero_cells a)"
    using grow_n_features [OF S] by (simp add: set_nonzero_cells)
  then have "card (set (grow_n ?N a [p])) \<le> card (set (nonzero_cells a))"
    by (simp add: card_mono)
  also have "\<dots> \<le> ?N" by (rule card_length)
  finally have "\<not> card (set [p]) + ?N \<le> card (set (grow_n ?N a [p]))" by simp
  with grow_n_progress [OF S, of ?N] show ?thesis by (simp add: feature_of_def)
qed

lemma set_feature_of:
  assumes "feature_cell a p"
  shows "set (feature_of a p) = (link a)\<^sup>* `` {p}"
proof
  have S: "set [p] \<subseteq> {p. feature_cell a p}" using assms by simp
  show "set (feature_of a p) \<subseteq> (link a)\<^sup>* `` {p}"
    unfolding feature_of_def using S by (rule grow_n_reach) simp
  have p: "p \<in> set (feature_of a p)"
    using grow_n_superset [OF S] by (simp add: feature_of_def)
  have "q \<in> set (feature_of a p)" if "(p, q) \<in> (link a)\<^sup>*" for q
    using that
  proof (induction rule: rtrancl_induct)
    case base
    show ?case by (rule p)
  next
    case (step y z)
    then have "feature_cell a z \<and> (\<exists>s \<in> set (feature_of a p). adj8 s z)"
      by (auto simp: link_def)
    then have "z \<in> set (grow a (feature_of a p))" by (simp add: set_grow)
    then show ?case by (simp add: feature_of_fixed [OF assms])
  qed
  then show "(link a)\<^sup>* `` {p} \<subseteq> set (feature_of a p)" by auto
qed

lemma link_sym: "sym (link a)"
  by (auto simp: sym_def link_def adj8_sym)

lemma reach_sym: "(p, q) \<in> (link a)\<^sup>* \<Longrightarrow> (q, p) \<in> (link a)\<^sup>*"
  by (rule symD [OF sym_rtrancl [OF link_sym]])

lemma reach_feature:
  assumes "feature_cell a p" and "(p, q) \<in> (link a)\<^sup>*"
  shows "feature_cell a q"
  using assms(2,1) by (induction rule: rtrancl_induct) (auto simp: link_def)

lemma reach_class:
  assumes "(p, q) \<in> (link a)\<^sup>*"
  shows "(link a)\<^sup>* `` {q} = (link a)\<^sup>* `` {p}"
proof -
  have qp: "(q, p) \<in> (link a)\<^sup>*" using assms by (rule reach_sym)
  show ?thesis
  proof (rule set_eqI)
    fix x
    have "(q, x) \<in> (link a)\<^sup>* \<longleftrightarrow> (p, x) \<in> (link a)\<^sup>*"
      using rtrancl_trans [OF assms, of x] rtrancl_trans [OF qp, of x] by blast
    then show "x \<in> (link a)\<^sup>* `` {q} \<longleftrightarrow> x \<in> (link a)\<^sup>* `` {p}" by simp
  qed
qed

lemma feature_of_canonical:
  assumes "feature_cell a p"
  shows "feature_of a p = filter (\<lambda>q. q \<in> (link a)\<^sup>* `` {p}) (nonzero_cells a)"
proof -
  have "p \<in> set (nonzero_cells a)" using assms by (simp add: set_nonzero_cells)
  then have "length (nonzero_cells a) \<noteq> 0" by auto
  then obtain n where n: "length (nonzero_cells a) = Suc n" by (cases "length (nonzero_cells a)") auto
  define P where "P = (\<lambda>q. \<exists>s \<in> set (grow_n n a [p]). adj8 s q)"
  have f: "feature_of a p = filter P (nonzero_cells a)"
    unfolding feature_of_def n grow_n_Suc by (simp add: grow_def P_def)
  have R: "set (filter P (nonzero_cells a)) = (link a)\<^sup>* `` {p}"
    using set_feature_of [OF assms] by (simp only: f)
  have "filter P (nonzero_cells a) = filter (\<lambda>q. q \<in> (link a)\<^sup>* `` {p}) (nonzero_cells a)"
  proof (rule filter_cong [OF refl])
    fix x assume "x \<in> set (nonzero_cells a)"
    then have "P x \<longleftrightarrow> x \<in> set (filter P (nonzero_cells a))" by simp
    then show "P x \<longleftrightarrow> x \<in> (link a)\<^sup>* `` {p}" by (simp only: R)
  qed
  then show ?thesis by (simp only: f)
qed

lemma feature_of_class:
  assumes "feature_cell a p" and "(p, q) \<in> (link a)\<^sup>*"
  shows "feature_of a q = feature_of a p"
proof -
  have q: "feature_cell a q" using assms by (rule reach_feature)
  show ?thesis
    unfolding feature_of_canonical [OF q] feature_of_canonical [OF assms(1)]
      reach_class [OF assms(2)] by (rule refl)
qed

lemma seed_reach:
  assumes "feature_cell a p"
  shows "(p, seed a p) \<in> (link a)\<^sup>*"
proof -
  have "p \<in> set (feature_of a p)" by (simp add: set_feature_of [OF assms])
  then have "feature_of a p \<noteq> []" by auto
  then have "hd (feature_of a p) \<in> set (feature_of a p)" by (rule hd_in_set)
  then show ?thesis by (simp add: seed_def set_feature_of [OF assms])
qed

lemma seed_eq_iff:
  assumes "feature_cell a p" and "feature_cell a q"
  shows "seed a q = seed a p \<longleftrightarrow> (p, q) \<in> (link a)\<^sup>*"
proof
  assume "(p, q) \<in> (link a)\<^sup>*"
  then have "feature_of a q = feature_of a p" by (rule feature_of_class [OF assms(1)])
  then show "seed a q = seed a p" unfolding seed_def by (rule arg_cong)
next
  assume eq: "seed a q = seed a p"
  have "(seed a q, q) \<in> (link a)\<^sup>*" using seed_reach [OF assms(2)] by (rule reach_sym)
  then have "(seed a p, q) \<in> (link a)\<^sup>*" by (simp only: eq)
  with seed_reach [OF assms(1)] show "(p, q) \<in> (link a)\<^sup>*" by (rule rtrancl_trans)
qed

lemma seed_in_seeds:
  assumes "feature_cell a p"
  shows "seed a p \<in> set (seeds a)"
proof -
  have f: "feature_cell a (seed a p)" using assms seed_reach [OF assms] by (rule reach_feature)
  have "seed a (seed a p) = seed a p"
    by (rule iffD2 [OF seed_eq_iff [OF assms f] seed_reach [OF assms]])
  with f show ?thesis by (simp add: seeds_def set_nonzero_cells)
qed

lemma index_of_inj:
  "x \<in> set xs \<Longrightarrow> y \<in> set xs \<Longrightarrow> index_of xs x = index_of xs y \<Longrightarrow> x = y"
  by (induction xs) (auto split: if_splits)

lemma label_eq_iff:
  assumes "feature_cell a p" and "in_bounds a q"
  shows "at (fst (label a)) q = at (fst (label a)) p
         \<longleftrightarrow> q \<in> (link a)\<^sup>* `` {p}"
proof (cases "feature_cell a q")
  case False
  then have "at a q = 0" using assms(2) by (simp add: feature_cell_def)
  moreover have "at a p \<noteq> 0" "in_bounds a p" using assms(1) by (simp_all add: feature_cell_def)
  moreover have "(p, q) \<notin> (link a)\<^sup>*" using False reach_feature [OF assms(1)] by blast
  ultimately show ?thesis using assms(2) by (simp add: at_label)
next
  case True
  have "index_of (seeds a) (seed a q) = index_of (seeds a) (seed a p) \<longleftrightarrow> seed a q = seed a p"
    using index_of_inj [OF seed_in_seeds [OF True] seed_in_seeds [OF assms(1)]] by auto
  then show ?thesis
    using True assms(1) seed_eq_iff [OF assms(1) True] by (simp add: at_label feature_cell_def)
qed

section \<open>Flagging\<close>

lemma norm_index_nat [simp]: "i < n \<Longrightarrow> norm_index n (int i) = Some i"
  by (simp add: norm_index_def)

lemma getitem_in_bounds:
  "in_bounds a p \<Longrightarrow> getitem a (int (fst p), int (snd p)) = Inr (at a p)"
  by (simp add: getitem_def in_bounds_def at_def)

lemma setitem_in_bounds:
  "in_bounds a p \<Longrightarrow>
   setitem a (int (fst p), int (snd p)) v = Inr (a[fst p := (a ! fst p)[snd p := v]])"
  by (simp add: setitem_def in_bounds_def)

lemma shape_set_cell: "same_shape (a[r := (a ! r)[c := v]]) a"
  by (cases "r < length a") (auto simp: same_shape_iff nth_list_update)

lemma at_set_cell:
  "in_bounds a q \<Longrightarrow>
   at (a[r := (a ! r)[c := v]]) q = (if q = (r, c) then v else at a q)"
proof (cases "fst q = r")
  case True
  assume "in_bounds a q"
  with True show ?thesis
    by (cases q; cases "snd q = c") (auto simp: at_def in_bounds_def)
next
  case False
  then show ?thesis by (cases q) (auto simp: at_def)
qed

lemma set_cell_restore:
  "(a[r := (a ! r)[c := v]])[r := ((a[r := (a ! r)[c := v]]) ! r)[c := a ! r ! c]] = a"
  by (cases "r < length a") (simp_all add: list_update_beyond not_less)

text \<open>
  Claim C8. Flagging a covered cell and flagging it again restores the visibility grid: the
  first application sets that one cell to Flagged and leaves every other cell as it was, the
  second returns the original grid. A flag command on a revealed cell changes nothing.
\<close>

theorem flag_round_trip:
  assumes "in_bounds visible p"
  shows "(at visible p = 0 \<longrightarrow>
           (\<exists>flagged.
              update_visible val visible (int (fst p), int (snd p)) True = Inr flagged
              \<and> same_shape flagged visible \<and> at flagged p = -1
              \<and> (\<forall>q. in_bounds visible q \<and> q \<noteq> p \<longrightarrow> at flagged q = at visible q)
              \<and> update_visible val flagged (int (fst p), int (snd p)) True = Inr visible))
       \<and> (at visible p = 1 \<longrightarrow>
           update_visible val visible (int (fst p), int (snd p)) True = Inr visible)"
proof (intro conjI impI)
  assume hidden: "at visible p = 0"
  define flagged where "flagged = visible[fst p := (visible ! fst p)[snd p := -1]]"
  have shape: "same_shape flagged visible" unfolding flagged_def by (rule shape_set_cell)
  then have inb: "in_bounds flagged p" using assms by (simp add: same_shape_in_bounds)
  have cellv: "at flagged q = (if q = p then -1 else at visible q)" if "in_bounds visible q" for q
    using at_set_cell [OF that, of "fst p" "snd p" "-1"] by (simp add: flagged_def)
  have first: "update_visible val visible (int (fst p), int (snd p)) True = Inr flagged"
    using hidden by (simp add: update_visible_def getitem_in_bounds [OF assms]
        setitem_in_bounds [OF assms] flagged_def)
  have restored: "flagged[fst p := (flagged ! fst p)[snd p := 0]] = visible"
    using set_cell_restore [of visible "fst p" "snd p" "-1"] hidden
    by (simp add: flagged_def at_def)
  have second: "update_visible val flagged (int (fst p), int (snd p)) True = Inr visible"
    using cellv [OF assms] by (simp add: update_visible_def getitem_in_bounds [OF inb]
        setitem_in_bounds [OF inb] restored)
  show "\<exists>flagged.
              update_visible val visible (int (fst p), int (snd p)) True = Inr flagged
              \<and> same_shape flagged visible \<and> at flagged p = -1
              \<and> (\<forall>q. in_bounds visible q \<and> q \<noteq> p \<longrightarrow> at flagged q = at visible q)
              \<and> update_visible val flagged (int (fst p), int (snd p)) True = Inr visible"
    using first shape second cellv assms by (intro exI [of _ flagged]) simp
next
  assume "at visible p = 1"
  then show "update_visible val visible (int (fst p), int (snd p)) True = Inr visible"
    by (simp add: update_visible_def getitem_in_bounds [OF assms])
qed

theorem flag_round_trip_witness:
  "in_bounds [[0, 1], [0, -1 :: int]] (1, 0)
   \<and> update_visible [[1, -1], [1, 1]] [[0, 1], [0, -1]] (1, 0) True = Inr [[0, 1], [-1, -1]]
   \<and> update_visible [[1, -1], [1, 1]] [[0, 1], [-1, -1]] (1, 0) True = Inr [[0, 1], [0, -1]]
   \<and> update_visible [[1, -1], [1, 1]] [[0, 1], [0, -1]] (0, 1) True = Inr [[0, 1], [0, -1]]"
proof -
  have b: "in_bounds [[0, 1], [0, -1 :: int]] (1, 0)" "in_bounds [[0, 1], [0, -1 :: int]] (0, 1)"
    by (simp_all add: in_bounds_def)
  have one: "update_visible [[1, -1], [1, 1]] [[0, 1], [0, -1]] (1, 0) True = Inr [[0, 1], [-1, -1]]"
    by code_simp
  show ?thesis
    using flag_round_trip [OF b(1), of "[[1, -1], [1, 1]]"]
      flag_round_trip [OF b(2), of "[[1, -1], [1, 1]]"] b one
    by (simp add: at_def)
qed

section \<open>The end of the game\<close>

lemma all_cells: "(\<forall>q. in_bounds a q \<longrightarrow> P q) \<longleftrightarrow> list_all P (cells a)"
  by (simp add: list_all_iff set_cells)

lemma xor_any:
  assumes "same_shape val visible"
  shows "np_any (logical_xor (ne_mask val (-1)) (eq_mask visible 1))
         \<longleftrightarrow> (\<exists>q. in_bounds val q \<and> (at val q \<noteq> -1) \<noteq> (at visible q = 1))"
proof -
  let ?m = "ne_mask val (-1)" and ?n = "eq_mask visible 1"
  have m: "same_shape ?m val" by simp
  have n: "same_shape ?n val"
    using shape_eq_mask [of visible 1] same_shape_sym [OF assms] by (rule same_shape_trans)
  have x: "same_shape (logical_xor ?m ?n) val" using m n by (rule shape_logical_xor)
  have "logical_xor ?m ?n ! fst q ! snd q \<longleftrightarrow> (at val q \<noteq> -1) \<noteq> (at visible q = 1)"
    if q: "in_bounds val q" for q
  proof -
    have "in_bounds visible q" using q same_shape_in_bounds [OF assms] by simp
    then show ?thesis
      by (simp add: at_logical_xor [OF m n q] at_ne_mask [OF q] at_eq_mask)
  qed
  then show ?thesis
    unfolding np_any_iff same_shape_in_bounds [OF x] by blast
qed

text \<open>
  Claim C1, as the code has it. On grids of one shape in which no mine cell is revealed (each
  mine is covered or flagged), \<open>check_end\<close> reports Won exactly when every cell that is not
  a mine is revealed. Nothing is said here about grids that show a revealed mine.
\<close>

theorem check_end_won:
  assumes "same_shape val visible" and "in_bounds val p"
    and "\<forall>q. in_bounds val q \<and> at val q = -1 \<longrightarrow> at visible q \<noteq> 1"
  shows "check_end val visible (int (fst p), int (snd p)) = Inr WON
         \<longleftrightarrow> (\<forall>q. in_bounds val q \<and> at val q \<noteq> -1 \<longrightarrow> at visible q = 1)"
proof -
  have pv: "in_bounds visible p" using assms(1,2) same_shape_in_bounds by blast
  have hit: "\<not> (at val p = -1 \<and> at visible p = 1)" using assms(2,3) by blast
  have any: "np_any (logical_xor (ne_mask val (-1)) (eq_mask visible 1))
         \<longleftrightarrow> \<not> (\<forall>q. in_bounds val q \<and> at val q \<noteq> -1 \<longrightarrow> at visible q = 1)"
    unfolding xor_any [OF assms(1)] using assms(3) by blast
  have "check_end val visible (int (fst p), int (snd p))
        = (if np_any (logical_xor (ne_mask val (-1)) (eq_mask visible 1)) then Inr (-1) else Inr 1)"
    using hit assms(1)
    by (simp add: check_end_def getitem_in_bounds [OF assms(2)] getitem_in_bounds [OF pv])
  then have "check_end val visible (int (fst p), int (snd p)) = Inr WON
      \<longleftrightarrow> \<not> np_any (logical_xor (ne_mask val (-1)) (eq_mask visible 1))"
    by (simp add: WON_def)
  with any show ?thesis by blast
qed

theorem check_end_won_witness:
  "same_shape [[-1, 1], [1, 2 :: int]] [[-1, 1], [1, 1 :: int]]
   \<and> in_bounds [[-1, 1], [1, 2 :: int]] (1, 1)
   \<and> check_end [[-1, 1], [1, 2]] [[-1, 1], [1, 1]] (1, 1) = Inr WON
   \<and> check_end [[-1, 1], [1, 2]] [[-1, 1], [0, 1]] (1, 1) = Inr ONGOING"
proof -
  let ?V = "[[-1, 1], [1, 2 :: int]]"
  have s: "same_shape ?V [[-1, 1], [1, 1 :: int]]" "same_shape ?V [[-1, 1], [0, 1 :: int]]"
    by (simp_all add: same_shape_def)
  have b: "in_bounds ?V (1, 1)" by (simp add: in_bounds_def)
  have c: "cells ?V = [(0, 0), (0, 1), (1, 0), (1, 1)]" by code_simp
  have m: "\<forall>q. in_bounds ?V q \<and> at ?V q = -1 \<longrightarrow> at [[-1, 1], [1, 1]] q \<noteq> 1"
    using all_cells [of ?V "\<lambda>q. at ?V q = -1 \<longrightarrow> at [[-1, 1], [1, 1]] q \<noteq> 1"]
    by (simp add: c at_def)
  have r: "\<forall>q. in_bounds ?V q \<and> at ?V q \<noteq> -1 \<longrightarrow> at [[-1, 1], [1, 1]] q = 1"
    using all_cells [of ?V "\<lambda>q. at ?V q \<noteq> -1 \<longrightarrow> at [[-1, 1], [1, 1]] q = 1"]
    by (simp add: c at_def)
  have won: "check_end ?V [[-1, 1], [1, 1]] (1, 1) = Inr WON"
    using check_end_won [OF s(1) b m] r by simp
  have "check_end ?V [[-1, 1], [0, 1]] (1, 1) = Inr ONGOING" by code_simp
  with s b won show ?thesis by simp
qed

theorem check_end_revealed_mine_counterexample:
  "at [[-1, 1]] (0, 0) = -1 \<and> at [[1, 1]] (0, 0) = 1 \<and> at [[1, 1]] (0, 1) = 1
   \<and> check_end [[-1, 1]] [[1, 1]] (0, 1) = Inr ONGOING
   \<and> check_end [[-1, 1]] [[1, 1]] (0, 0) = Inr LOST"
  by code_simp

section \<open>The value grid\<close>

lemma distinct_window: "distinct window"
  by (simp add: window_def)

lemma card_window_ring: "card (set window - {(0, 0)}) = 8"
  by (simp add: window_def)

lemma mine_grid_at:
  assumes "mine_grid m" and "in_bounds m q"
  shows "at m q = 0 \<or> at m q = 1"
proof -
  have "m ! fst q \<in> set m" "m ! fst q ! snd q \<in> set (m ! fst q)"
    using assms(2) by (simp_all add: in_bounds_def)
  with assms(1) show ?thesis unfolding mine_grid_def at_def by blast
qed

lemma mine_grid_cell0:
  assumes "mine_grid m"
  shows "cell0 m i j = 0 \<or> cell0 m i j = 1"
proof (cases "cell0 m i j = 0")
  case True
  then show ?thesis by simp
next
  case False
  from cell0_nonzero [OF False]
  have c: "in_bounds m (nat i, nat j)" "cell0 m i j = at m (nat i, nat j)" by simp_all
  show ?thesis unfolding c(2) using assms c(1) by (rule mine_grid_at)
qed

lemma window_cell:
  assumes "d \<in> set window" and "cell0 a (int (fst p) + fst d) (int (snd p) + snd d) \<noteq> 0"
  shows "in_bounds a (nat (int (fst p) + fst d), nat (int (snd p) + snd d))"
    and "adj8 p (nat (int (fst p) + fst d), nat (int (snd p) + snd d))"
    and "at a (nat (int (fst p) + fst d), nat (int (snd p) + snd d))
         = cell0 a (int (fst p) + fst d) (int (snd p) + snd d)"
    and "0 \<le> int (fst p) + fst d" and "0 \<le> int (snd p) + snd d"
proof -
  note c = cell0_nonzero [OF assms(2)]
  show "in_bounds a (nat (int (fst p) + fst d), nat (int (snd p) + snd d))"
    and "at a (nat (int (fst p) + fst d), nat (int (snd p) + snd d))
         = cell0 a (int (fst p) + fst d) (int (snd p) + snd d)"
    and "0 \<le> int (fst p) + fst d" and "0 \<le> int (snd p) + snd d"
    using c by simp_all
  then show "adj8 p (nat (int (fst p) + fst d), nat (int (snd p) + snd d))"
    using assms(1) by (simp add: adj8_def in_window)
qed

lemma window_count:
  assumes "mine_grid m"
  shows "sum_list (map (\<lambda>d. cell0 m (int (fst p) + fst d) (int (snd p) + snd d)) window)
         = int (card {z. in_bounds m z \<and> adj8 p z \<and> at m z = 1})"
proof -
  define f where "f d = cell0 m (int (fst p) + fst d) (int (snd p) + snd d)" for d
  define g where "g d = (nat (int (fst p) + fst d), nat (int (snd p) + snd d))" for d :: "int \<times> int"
  define D where "D = {d \<in> set window. f d = 1}"
  have f01: "f d = 0 \<or> f d = 1" for d
    unfolding f_def using assms by (rule mine_grid_cell0)
  have "sum_list (map f window) = (\<Sum>d \<in> set window. f d)"
    using distinct_window by (simp add: sum_list_distinct_conv_sum_set)
  also have "\<dots> = (\<Sum>d \<in> set window. if f d = 1 then 1 else 0)"
    by (rule sum.cong) (use f01 in auto)
  also have "\<dots> = int (card D)"
    by (simp add: sum.If_cases D_def Int_def)
  finally have sum: "sum_list (map f window) = int (card D)" .
  have inj: "inj_on g D"
  proof (rule inj_onI)
    fix d e assume d: "d \<in> D" and e: "e \<in> D" and eq: "g d = g e"
    have "0 \<le> int (fst p) + fst d" "0 \<le> int (snd p) + snd d"
      "0 \<le> int (fst p) + fst e" "0 \<le> int (snd p) + snd e"
      using d e window_cell(4,5) [of _ m p] by (simp_all add: D_def f_def)
    with eq show "d = e" unfolding g_def prod_eq_iff by simp linarith
  qed
  have img: "g ` D = {z. in_bounds m z \<and> adj8 p z \<and> at m z = 1}"
  proof (rule set_eqI, rule iffI)
    fix z assume "z \<in> g ` D"
    then obtain d where d: "d \<in> set window" "f d = 1" "z = g d" by (auto simp: D_def)
    then have nz: "cell0 m (int (fst p) + fst d) (int (snd p) + snd d) \<noteq> 0" by (simp add: f_def)
    show "z \<in> {z. in_bounds m z \<and> adj8 p z \<and> at m z = 1}"
      using window_cell(1,2,3) [OF d(1) nz] d(2,3) by (simp add: g_def f_def)
  next
    fix z assume "z \<in> {z. in_bounds m z \<and> adj8 p z \<and> at m z = 1}"
    then have z: "in_bounds m z" "adj8 p z" "at m z = 1" by simp_all
    define d where "d = (int (fst z) - int (fst p), int (snd z) - int (snd p))"
    have "d \<in> set window" using z(2) by (simp add: in_window d_def adj8_def abs_minus_commute)
    moreover have "f d = 1" using cell0_in_bounds [OF z(1)] z(3) by (simp add: d_def f_def)
    moreover have "g d = z" by (simp add: g_def d_def)
    ultimately show "z \<in> g ` D" unfolding D_def by blast
  qed
  have fe: "f = (\<lambda>d. cell0 m (int (fst p) + fst d) (int (snd p) + snd d))"
    by (rule ext) (simp add: f_def)
  have "card (g ` D) = card D" using inj by (rule card_image)
  with sum img have "sum_list (map f window)
      = int (card {z. in_bounds m z \<and> adj8 p z \<and> at m z = 1})" by simp
  then show ?thesis unfolding fe .
qed

lemma window_count_le:
  assumes "mine_grid m" and "in_bounds m p" and "at m p \<noteq> 1"
  shows "sum_list (map (\<lambda>d. cell0 m (int (fst p) + fst d) (int (snd p) + snd d)) window) \<le> 8"
proof -
  define f where "f d = cell0 m (int (fst p) + fst d) (int (snd p) + snd d)" for d
  have f01: "f d = 0 \<or> f d = 1" for d
    unfolding f_def using assms(1) by (rule mine_grid_cell0)
  have centre: "f (0, 0) \<noteq> 1"
    using cell0_in_bounds [OF assms(2)] assms(3) by (simp add: f_def)
  have "sum_list (map f window) = (\<Sum>d \<in> set window. f d)"
    using distinct_window by (simp add: sum_list_distinct_conv_sum_set)
  also have "\<dots> = (\<Sum>d \<in> set window - {(0, 0)}. f d)"
    by (rule sum.mono_neutral_right) (use f01 centre in auto)
  also have "\<dots> \<le> (\<Sum>d \<in> set window - {(0, 0)}. 1)"
    by (rule sum_mono) (use f01 in \<open>metis order_refl zero_le_one\<close>)
  also have "\<dots> = 8" by (simp add: card_window_ring)
  finally have "sum_list (map f window) \<le> 8" .
  moreover have "f = (\<lambda>d. cell0 m (int (fst p) + fst d) (int (snd p) + snd d))"
    by (rule ext) (simp add: f_def)
  ultimately show ?thesis by simp
qed

lemma at_get_value:
  "in_bounds m p \<Longrightarrow>
   at (get_value m) p = (if at m p = 1 then -1 else at (convolve m) p)"
proof -
  assume p: "in_bounds m p"
  have s: "same_shape (eq_mask m 1) (convolve m)"
    using shape_eq_mask same_shape_sym [OF shape_convolve] by (rule same_shape_trans)
  have c: "in_bounds (convolve m) p" using p same_shape_in_bounds [OF shape_convolve] by blast
  show ?thesis
    unfolding get_value_def by (simp add: at_putmask [OF s c] at_eq_mask [OF p])
qed

lemma shape_get_value: "same_shape (get_value m) m"
proof -
  have "same_shape (eq_mask m 1) (convolve m)"
    using shape_eq_mask same_shape_sym [OF shape_convolve] by (rule same_shape_trans)
  then have "same_shape (get_value m) (convolve m)"
    unfolding get_value_def by (rule shape_putmask)
  then show ?thesis using shape_convolve by (rule same_shape_trans)
qed

text \<open>
  Claim C5. For a mine grid (entries 0 and 1), \<open>get_value\<close> returns a grid of the same
  shape in which a cell holds -1 exactly when it is a mine, and a cell that is no mine holds
  the number of mines among its neighbours inside the grid, a value between 0 and 8.
\<close>

theorem get_value_correct:
  assumes "mine_grid m" and "in_bounds m p"
  shows "same_shape (get_value m) m
         \<and> (at (get_value m) p = -1 \<longleftrightarrow> at m p = 1)
         \<and> (at m p \<noteq> 1 \<longrightarrow>
              at (get_value m) p = int (card (mine_neighbours m p))
              \<and> 0 \<le> at (get_value m) p \<and> at (get_value m) p \<le> 8)"
proof -
  have conv: "at (convolve m) p = int (card {z. in_bounds m z \<and> adj8 p z \<and> at m z = 1})"
    unfolding at_convolve [OF assms(2)] using assms(1) by (rule window_count)
  have nb: "{z. in_bounds m z \<and> adj8 p z \<and> at m z = 1} = mine_neighbours m p" if "at m p \<noteq> 1"
    using that by (auto simp: mine_neighbours_def)
  have le: "at (convolve m) p \<le> 8" if "at m p \<noteq> 1"
    unfolding at_convolve [OF assms(2)] using assms that by (rule window_count_le)
  show ?thesis
    using conv nb le by (auto simp: at_get_value [OF assms(2)] shape_get_value)
qed

theorem get_value_correct_witness:
  "mine_grid [[0, 1, 0], [0, 0, 0], [1, 0, 0]] \<and> in_bounds [[0, 1, 0], [0, 0, 0], [1, 0, 0 :: int]] (1, 1)
   \<and> get_value [[0, 1, 0], [0, 0, 0], [1, 0, 0]] = [[1, -1, 1], [2, 2, 1], [-1, 1, 0]]
   \<and> card (mine_neighbours [[0, 1, 0], [0, 0, 0], [1, 0, 0]] (1, 1)) = 2"
proof -
  let ?m = "[[0, 1, 0], [0, 0, 0], [1, 0, 0 :: int]]"
  have g: "mine_grid ?m" by (simp add: mine_grid_def)
  have b: "in_bounds ?m (1, 1)" by (simp add: in_bounds_def)
  have v: "get_value ?m = [[1, -1, 1], [2, 2, 1], [-1, 1, 0]]" by code_simp
  have "at ?m (1, 1) \<noteq> 1" by (simp add: at_def)
  then have "at (get_value ?m) (1, 1) = int (card (mine_neighbours ?m (1, 1)))"
    using get_value_correct [OF g b] by blast
  then have "card (mine_neighbours ?m (1, 1)) = 2" by (simp add: v at_def)
  with g b v show ?thesis by simp
qed

end
